theory Spec2Isabelle
  imports Complex_Main
begin

section \<open>Strings of \<^verbatim>\<open>crawl_ultravox_docs.py\<close>\<close>

text \<open>
  A Python \<^verbatim>\<open>str\<close> is a sequence of code points; it is modelled as a \<^typ>\<open>string\<close>,
  one \<^typ>\<open>char\<close> for each code point, and \<^verbatim>\<open>len\<close> is \<^const>\<open>length\<close>. A \<^typ>\<open>char\<close>
  has eight bits, so the texts of the model are those of code points up to U+00FF; the
  white space among them is listed in \<^verbatim>\<open>is_space\<close>, and the general results below use
  nothing of that list. Integers are Python's unbounded ones, hence \<^typ>\<open>int\<close>.
\<close>

definition is_space :: "char \<Rightarrow> bool" where
  \<comment> \<open>\<^verbatim>\<open>str.isspace\<close> on one character: the white space that \<^verbatim>\<open>str.strip()\<close> removes\<close>
  "is_space c = (of_char c \<in> {9, 10, 11, 12, 13, 28, 29, 30, 31, 32, 133, 160 :: nat})"

definition strip :: "string \<Rightarrow> string" where
  \<comment> \<open>\<^verbatim>\<open>s.strip()\<close>\<close>
  "strip s = rev (dropWhile is_space (rev (dropWhile is_space s)))"

definition py_bound :: "int \<Rightarrow> nat \<Rightarrow> nat" where
  \<comment> \<open>a slice bound: a negative one counts from the end, and both are clipped to the string\<close>
  "py_bound i n = (if i < 0 then nat (max 0 (i + int n)) else min (nat i) n)"

definition slice :: "'a list \<Rightarrow> int \<Rightarrow> int \<Rightarrow> 'a list" where
  \<comment> \<open>\<^verbatim>\<open>s[lo:hi]\<close>\<close>
  "slice s lo hi =
     (let l = py_bound lo (length s); h = py_bound hi (length s)
      in take (h - l) (drop l s))"

definition slice_from :: "'a list \<Rightarrow> int \<Rightarrow> 'a list" where
  \<comment> \<open>\<^verbatim>\<open>s[lo:]\<close>\<close>
  "slice_from s lo = drop (py_bound lo (length s)) s"

definition occurs_at :: "'a list \<Rightarrow> 'a list \<Rightarrow> nat \<Rightarrow> bool" where
  \<comment> \<open>\<^verbatim>\<open>s[i:i+len(sub)] == sub\<close> with \<^verbatim>\<open>i + len(sub) <= len(s)\<close>\<close>
  "occurs_at s sub i = (take (length sub) (drop i s) = sub)"

fun rfind_upto :: "'a list \<Rightarrow> 'a list \<Rightarrow> nat \<Rightarrow> int" where
  "rfind_upto s sub 0 = (if occurs_at s sub 0 then 0 else - 1)"
| "rfind_upto s sub (Suc i) =
     (if occurs_at s sub (Suc i) then int (Suc i) else rfind_upto s sub i)"

definition rfind :: "'a list \<Rightarrow> 'a list \<Rightarrow> int" where
  \<comment> \<open>\<^verbatim>\<open>s.rfind(sub)\<close>: the highest index at which \<^verbatim>\<open>sub\<close> occurs, or \<^verbatim>\<open>-1\<close>\<close>
  "rfind s sub = rfind_upto s sub (length s)"

definition contains :: "'a list \<Rightarrow> 'a list \<Rightarrow> bool" where
  \<comment> \<open>\<^verbatim>\<open>sub in s\<close>\<close>
  "contains sub s = list_ex (occurs_at s sub) [0..<Suc (length s)]"

definition fence :: string where
  \<comment> \<open>the fenced-code delimiter, three backquotes\<close>
  "fence = [CHR 0x60, CHR 0x60, CHR 0x60]"

definition blank_line :: string where
  \<comment> \<open>\<^verbatim>\<open>'\n\n'\<close>\<close>
  "blank_line = [CHR 0x0A, CHR 0x0A]"

definition sentence_end :: string where
  \<comment> \<open>\<^verbatim>\<open>'. '\<close>\<close>
  "sentence_end = ''. ''"

section \<open>The chunker\<close>

text \<open>
  The test \<^verbatim>\<open>pos > chunk_size * 0.3\<close> compares an integer with a double. Python compares
  the two exactly, and the product \<^verbatim>\<open>chunk_size * 0.3\<close> is the double nearest to
  three tenths of \<^verbatim>\<open>chunk_size\<close>: it is that number itself when it is an integer, and it
  lies strictly between the same two integers otherwise, for every \<^verbatim>\<open>chunk_size\<close> below
  \<open>2 ^ 50\<close> in absolute value. So the test is the integer comparison below.
\<close>

definition past_30_percent :: "int \<Rightarrow> int \<Rightarrow> bool" where
  "past_30_percent pos chunk_size = (3 * chunk_size < 10 * pos)"

definition adjust_end :: "string \<Rightarrow> int \<Rightarrow> int \<Rightarrow> int \<Rightarrow> int" where
  \<comment> \<open>lines 49 to 59: the value of \<^verbatim>\<open>end\<close> after the \<^verbatim>\<open>if\<close>/\<^verbatim>\<open>elif\<close> chain\<close>
  "adjust_end chunk chunk_size start end =
     (let code_block = rfind chunk fence in
      if code_block \<noteq> - 1 \<and> past_30_percent code_block chunk_size then start + code_block
      else if contains blank_line chunk then
        (let last_break = rfind chunk blank_line in
         if past_30_percent last_break chunk_size then start + last_break else end)
      else if contains sentence_end chunk then
        (let last_period = rfind chunk sentence_end in
         if past_30_percent last_period chunk_size then start + last_period + 1 else end)
      else end)"

definition cut_point :: "string \<Rightarrow> int \<Rightarrow> int \<Rightarrow> int" where
  \<comment> \<open>lines 43 and 48 to 59: \<^verbatim>\<open>end\<close> as line 61 reads it, for the window that begins at \<^verbatim>\<open>start\<close>\<close>
  "cut_point text chunk_size start =
     adjust_end (slice text start (start + chunk_size)) chunk_size start (start + chunk_size)"

partial_function (option) chunk_loop ::
  "string \<Rightarrow> int \<Rightarrow> int \<Rightarrow> string list \<Rightarrow> string list option" where
  "chunk_loop text chunk_size start chunks =
     (if start < int (length text) then
        (if start + chunk_size \<ge> int (length text)
         then Some (chunks @ [strip (slice_from text start)])
         else chunk_loop text chunk_size
                (max (start + 1) (cut_point text chunk_size start))
                (if strip (slice text start (cut_point text chunk_size start)) \<noteq> []
                 then chunks @ [strip (slice text start (cut_point text chunk_size start))]
                 else chunks))
      else Some chunks)"

declare chunk_loop.simps [code]

definition chunk_text :: "string \<Rightarrow> int \<Rightarrow> string list option" where
  \<comment> \<open>\<^const>\<open>None\<close> stands for a loop that never returns\<close>
  "chunk_text text chunk_size = chunk_loop text chunk_size 0 []"

definition default_chunk_size :: int where
  \<comment> \<open>the default of the parameter \<^verbatim>\<open>chunk_size\<close>\<close>
  "default_chunk_size = 5000"

subsection \<open>Reassembling a text from its chunks\<close>

definition blank :: "string \<Rightarrow> bool" where
  \<comment> \<open>white space only (the empty string included)\<close>
  "blank w = list_all is_space w"

fun weave :: "string list \<Rightarrow> string list \<Rightarrow> string" where
  \<comment> \<open>\<open>weave [w0, ..., wN] [c0, ..., c(N-1)] = w0 @ c0 @ w1 @ c1 @ ... @ c(N-1) @ wN\<close>\<close>
  "weave (w # ws) (c # cs) = w @ c @ weave ws cs"
| "weave (w # ws) [] = w"
| "weave [] cs = []"

text \<open>
  The invariant of the reconstruction: the chunks produced so far, with white space around
  them, make up the text before \<open>start\<close>.
\<close>

definition woven :: "string \<Rightarrow> int \<Rightarrow> string list \<Rightarrow> bool" where
  "woven doc start chunks =
     (0 \<le> start \<and>
      (\<exists>ws. length ws = Suc (length chunks) \<and> list_all blank ws \<and>
            weave ws chunks = take (nat start) doc))"

section \<open>The enricher\<close>

text \<open>
  The values \<^verbatim>\<open>json.loads\<close> returns. A JSON object becomes a Python \<^verbatim>\<open>dict\<close>: an
  association list, read with \<^const>\<open>map_of\<close>.
\<close>

datatype json =
    JNull
  | JBool bool
  | JNumber real
  | JString string
  | JArray "json list"
  | JObject "(string \<times> json) list"

datatype py_error = KeyError string | TypeError | ValueError

text \<open>
  What the \<^verbatim>\<open>try\<close> block of \<^verbatim>\<open>get_title_and_summary\<close> can meet: the call to the provider
  (or reading \<^verbatim>\<open>response.choices[0].message.content\<close>) raises, \<^verbatim>\<open>json.loads\<close> raises on
  content that is not JSON, or \<^verbatim>\<open>json.loads\<close> returns a value.
\<close>

datatype completion = Call_Fails | Not_Json | Json json

text \<open>
  The collaborators of the pipeline: the provider's answer to a chat completion with a given
  user message (the system prompt, the model and the response format are constants of the
  call), its answer to an embedding request (\<^const>\<open>None\<close> when the call raises), the clock,
  \<^verbatim>\<open>urlparse(url).path\<close> (the path, or the \<^verbatim>\<open>ValueError\<close> that \<^verbatim>\<open>urlparse\<close> raises on a
  malformed URL such as \<^verbatim>\<open>http://[bad\<close>), and the store (\<^const>\<open>None\<close> when the
  insertion raises).
\<close>

record processed_chunk =
  url :: string
  chunk_number :: int
  title :: json
  summary :: json
  content :: string
  metadata :: "(string \<times> json) list"
  embedding :: "real list"

record world =
  completions :: "string \<Rightarrow> completion"
  embeddings :: "string \<Rightarrow> real list option"
  utc_now :: string
  url_path :: "string \<Rightarrow> py_error + string"
  store_insert :: "processed_chunk \<Rightarrow> string option"

definition user_message :: "string \<Rightarrow> string \<Rightarrow> string" where
  \<comment> \<open>\<^verbatim>\<open>f"URL: {url}\n\nContent:\n{chunk[:1000]}..."\<close>\<close>
  "user_message address chunk =
     ''URL: '' @ address @ [CHR 0x0A, CHR 0x0A] @ ''Content:'' @ [CHR 0x0A]
       @ slice chunk 0 1000 @ ''...''"

definition error_dict :: json where
  \<comment> \<open>the dictionary returned by the \<^verbatim>\<open>except\<close> branch of \<^verbatim>\<open>get_title_and_summary\<close>\<close>
  "error_dict =
     JObject [(''title'', JString ''Error processing title''),
              (''summary'', JString ''Error processing summary'')]"

definition get_title_and_summary :: "world \<Rightarrow> string \<Rightarrow> string \<Rightarrow> json" where
  "get_title_and_summary w chunk address =
     (case completions w (user_message address chunk) of
        Call_Fails \<Rightarrow> error_dict
      | Not_Json \<Rightarrow> error_dict
      | Json j \<Rightarrow> j)"

definition get_embedding :: "world \<Rightarrow> string \<Rightarrow> real list" where
  "get_embedding w txt =
     (case embeddings w txt of
        Some v \<Rightarrow> v
      | None \<Rightarrow> replicate 1536 0)"

fun subscript :: "json \<Rightarrow> string \<Rightarrow> py_error + json" where
  \<comment> \<open>\<^verbatim>\<open>extracted[key]\<close> with a string key: \<^verbatim>\<open>KeyError\<close> on a dictionary without the key,
      \<^verbatim>\<open>TypeError\<close> on a value that is not a dictionary\<close>
  "subscript (JObject kvs) key =
     (case map_of kvs key of Some v \<Rightarrow> Inr v | None \<Rightarrow> Inl (KeyError key))"
| "subscript j key = Inl TypeError"

definition process_chunk :: "world \<Rightarrow> string \<Rightarrow> int \<Rightarrow> string \<Rightarrow> py_error + processed_chunk" where
  \<comment> \<open>in the order of the source: the two awaited calls, the metadata (line 111 may
      raise), then the two subscripts inside the constructor call\<close>
  "process_chunk w chunk number address =
     (let extracted = get_title_and_summary w chunk address;
          vector = get_embedding w chunk
      in case url_path w address of
           Inl e \<Rightarrow> Inl e
         | Inr path \<Rightarrow>
             (let meta = [(''source'', JString ''ultravox_docs''),
                          (''chunk_size'', JNumber (of_nat (length chunk))),
                          (''crawled_at'', JString (utc_now w)),
                          (''url_path'', JString path)]
              in case subscript extracted ''title'' of
                   Inl e \<Rightarrow> Inl e
                 | Inr t \<Rightarrow>
                     (case subscript extracted ''summary'' of
                        Inl e \<Rightarrow> Inl e
                      | Inr s \<Rightarrow>
                          Inr \<lparr>url = address, chunk_number = number, title = t, summary = s,
                               content = chunk, metadata = meta, embedding = vector\<rparr>)))"

section \<open>The store writer and the document pipeline\<close>

definition insert_chunk :: "world \<Rightarrow> processed_chunk \<Rightarrow> string option" where
  \<comment> \<open>the result of the insertion, or \<^verbatim>\<open>None\<close> from the \<^verbatim>\<open>except\<close> branch\<close>
  "insert_chunk w chunk = (case store_insert w chunk of Some r \<Rightarrow> Some r | None \<Rightarrow> None)"

fun gather :: "(py_error + 'a) list \<Rightarrow> py_error + 'a list" where
  \<comment> \<open>\<^verbatim>\<open>await asyncio.gather(*tasks)\<close>: every result, in the order of the tasks, or an
      exception that one of them raised\<close>
  "gather [] = Inr []"
| "gather (Inl e # rs) = Inl e"
| "gather (Inr x # rs) = (case gather rs of Inl e \<Rightarrow> Inl e | Inr xs \<Rightarrow> Inr (x # xs))"

text \<open>
  One run of \<^verbatim>\<open>process_and_store_document\<close>: the arguments of every call of
  \<^verbatim>\<open>process_chunk\<close>, the argument and the result of every call of \<^verbatim>\<open>insert_chunk\<close>, and
  the exception that leaves the function, if any.
\<close>

record document_run =
  enricher_calls :: "(string \<times> int \<times> string) list"
  store_calls :: "(processed_chunk \<times> string option) list"
  raised :: "py_error option"

definition process_and_store_document :: "world \<Rightarrow> string \<Rightarrow> string \<Rightarrow> document_run option" where
  "process_and_store_document w address markdown =
     (case chunk_text markdown default_chunk_size of
        None \<Rightarrow> None
      | Some chunks \<Rightarrow>
          (let tasks = map (\<lambda>(i, chunk). (chunk, int i, address)) (enumerate 0 chunks)
           in case gather (map (\<lambda>(chunk, i, a). process_chunk w chunk i a) tasks) of
                Inl e \<Rightarrow>
                  Some \<lparr>enricher_calls = tasks, store_calls = [], raised = Some e\<rparr>
              | Inr processed_chunks \<Rightarrow>
                  Some \<lparr>enricher_calls = tasks,
                        store_calls = map (\<lambda>c. (c, insert_chunk w c)) processed_chunks,
                        raised = None\<rparr>))"

section \<open>The crawl orchestrator\<close>

text \<open>
  \<^verbatim>\<open>crawl_parallel\<close> starts one task \<^verbatim>\<open>process_url\<close> for each URL; the tasks are interleaved
  on one event loop and switch only at an \<^verbatim>\<open>await\<close>. A task waits at
  \<^verbatim>\<open>async with semaphore\<close>, then awaits \<^verbatim>\<open>crawler.arun\<close>, then (after a successful fetch)
  awaits \<^verbatim>\<open>process_and_store_document\<close>, and leaves the \<^verbatim>\<open>async with\<close> block. The
  semaphore is \<^verbatim>\<open>asyncio.Semaphore(max_concurrent)\<close>: entering the block takes a permit and
  is possible only while one is left, leaving the block (by its end or by an exception)
  gives the permit back.
\<close>

datatype task = Waiting | Fetching | Storing | Finished

datatype event =
    Acquire nat       \<comment> \<open>the task enters \<^verbatim>\<open>async with semaphore\<close> and calls \<^verbatim>\<open>crawler.arun\<close>\<close>
  | Fetch_Ok nat      \<comment> \<open>\<^verbatim>\<open>result.success\<close>: the task calls \<^verbatim>\<open>process_and_store_document\<close>\<close>
  | Fetch_Failed nat  \<comment> \<open>\<^verbatim>\<open>result.success\<close> is false, or \<^verbatim>\<open>crawler.arun\<close> raises\<close>
  | Stored nat        \<comment> \<open>\<^verbatim>\<open>process_and_store_document\<close> returns or raises\<close>
  | Cancelled nat     \<comment> \<open>the task is cancelled before it has entered the block\<close>

record crawl =
  permits :: nat
  tasks :: "task list"

definition crawl_start :: "string list \<Rightarrow> nat \<Rightarrow> crawl" where
  \<comment> \<open>\<^verbatim>\<open>asyncio.gather(*[process_url(url) for url in urls])\<close> with a fresh semaphore\<close>
  "crawl_start urls max_concurrent =
     \<lparr>permits = max_concurrent, tasks = map (\<lambda>u. Waiting) urls\<rparr>"

definition at_task :: "crawl \<Rightarrow> nat \<Rightarrow> task \<Rightarrow> bool" where
  "at_task s i t = (i < length (tasks s) \<and> tasks s ! i = t)"

fun process_url :: "crawl \<Rightarrow> event \<Rightarrow> crawl option" where
  \<comment> \<open>one step of one task; \<^const>\<open>None\<close> when the task cannot take this step now\<close>
  "process_url s (Acquire i) =
     (if at_task s i Waiting \<and> 0 < permits s
      then Some (s\<lparr>permits := permits s - 1, tasks := (tasks s)[i := Fetching]\<rparr>)
      else None)"
| "process_url s (Fetch_Ok i) =
     (if at_task s i Fetching
      then Some (s\<lparr>tasks := (tasks s)[i := Storing]\<rparr>)
      else None)"
| "process_url s (Fetch_Failed i) =
     (if at_task s i Fetching
      then Some (s\<lparr>permits := permits s + 1, tasks := (tasks s)[i := Finished]\<rparr>)
      else None)"
| "process_url s (Stored i) =
     (if at_task s i Storing
      then Some (s\<lparr>permits := permits s + 1, tasks := (tasks s)[i := Finished]\<rparr>)
      else None)"
| "process_url s (Cancelled i) =
     (if at_task s i Waiting
      then Some (s\<lparr>tasks := (tasks s)[i := Finished]\<rparr>)
      else None)"

fun crawl_run :: "crawl \<Rightarrow> event list \<Rightarrow> crawl option" where
  "crawl_run s [] = Some s"
| "crawl_run s (e # es) = (case process_url s e of None \<Rightarrow> None | Some s' \<Rightarrow> crawl_run s' es)"

definition crawl_parallel :: "string list \<Rightarrow> nat \<Rightarrow> event list \<Rightarrow> crawl option" where
  \<comment> \<open>the state that a schedule of the tasks leads to\<close>
  "crawl_parallel urls max_concurrent schedule =
     crawl_run (crawl_start urls max_concurrent) schedule"

definition holding :: "crawl \<Rightarrow> nat" where
  \<comment> \<open>the tasks inside the \<^verbatim>\<open>async with\<close> block\<close>
  "holding s = length (filter (\<lambda>t. t = Fetching \<or> t = Storing) (tasks s))"

definition in_flight :: "crawl \<Rightarrow> nat" where
  \<comment> \<open>the fetches in flight: the tasks awaiting \<^verbatim>\<open>crawler.arun\<close>\<close>
  "in_flight s = length (filter (\<lambda>t. t = Fetching) (tasks s))"

section \<open>Inputs used in the examples\<close>

definition failing_world :: world where
  \<comment> \<open>a provider whose every call raises\<close>
  "failing_world =
     \<lparr>completions = (\<lambda>m. Call_Fails), embeddings = (\<lambda>t. None),
      utc_now = ''2025-01-01T00:00:00+00:00'', url_path = (\<lambda>u. Inr ''/introduction''),
      store_insert = (\<lambda>c. Some ''ok'')\<rparr>"

definition keyless_world :: world where
  \<comment> \<open>a provider that answers every completion with the JSON object \<^verbatim>\<open>{}\<close>\<close>
  "keyless_world = failing_world\<lparr>completions := (\<lambda>m. Json (JObject []))\<rparr>"

definition introduction :: string where
  "introduction = ''https://docs.ultravox.ai/introduction''"



definition early_break_text :: string where
  \<comment> \<open>a paragraph break at index 1 and a sentence end at index 7\<close>
  "early_break_text = ''a'' @ blank_line @ ''bbbb. cccc''"

definition twelve_thousand :: string where
  \<comment> \<open>\<^verbatim>\<open>"A" * 12000\<close>\<close>
  "twelve_thousand = replicate 12000 (CHR ''A'')"

definition sentence_text :: string where
  \<comment> \<open>no fence, no paragraph break, a sentence end at index 7\<close>
  "sentence_text = ''aaaa bb. cccc dddd''"

section \<open>Substrings and slices\<close>

lemma occurs_at_bound: "sub \<noteq> [] \<Longrightarrow> occurs_at s sub i \<Longrightarrow> i + length sub \<le> length s"
proof -
  assume ne: "sub \<noteq> []" and occ: "occurs_at s sub i"
  have "length (take (length sub) (drop i s)) = length sub"
    using occ by (simp add: occurs_at_def)
  then have "length sub \<le> length s - i" by simp
  moreover have "0 < length sub" using ne by simp
  ultimately show ?thesis by arith
qed

lemma rfind_upto_range: "rfind_upto s sub n = - 1 \<or> (0 \<le> rfind_upto s sub n \<and> rfind_upto s sub n \<le> int n)"
  by (induction n) auto

lemma rfind_upto_occurs: "0 \<le> rfind_upto s sub n \<Longrightarrow> occurs_at s sub (nat (rfind_upto s sub n))"
proof (induction n)
  case 0
  then show ?case by (simp split: if_splits)
next
  case (Suc n)
  have "nat (1 + int n) = Suc n" by simp
  then show ?case using Suc by (simp split: if_splits)
qed

lemma rfind_upto_highest: "occurs_at s sub j \<Longrightarrow> j \<le> n \<Longrightarrow> int j \<le> rfind_upto s sub n"
proof (induction n)
  case 0
  then show ?case by simp
next
  case (Suc n)
  show ?case
  proof (cases "occurs_at s sub (Suc n)")
    case True
    then show ?thesis using Suc.prems by simp
  next
    case False
    then have "j \<le> n" using Suc.prems by (cases "j = Suc n") auto
    then show ?thesis using Suc False by simp
  qed
qed

lemma rfind_range:
  "sub \<noteq> [] \<Longrightarrow> rfind s sub = - 1 \<or> (0 \<le> rfind s sub \<and> rfind s sub + int (length sub) \<le> int (length s))"
proof -
  assume ne: "sub \<noteq> []"
  show ?thesis
  proof (cases "rfind s sub = - 1")
    case True
    then show ?thesis by simp
  next
    case False
    then have nn: "0 \<le> rfind s sub"
      using rfind_upto_range [of s sub "length s"] by (simp add: rfind_def)
    then have "occurs_at s sub (nat (rfind s sub))"
      using rfind_upto_occurs [of s sub "length s"] by (simp add: rfind_def)
    then have "nat (rfind s sub) + length sub \<le> length s"
      by (rule occurs_at_bound [OF ne])
    then show ?thesis using nn by linarith
  qed
qed

lemma contains_iff: "contains sub s \<longleftrightarrow> (\<exists>i\<le>length s. occurs_at s sub i)"
  by (auto simp: contains_def list_ex_iff Bex_def order_le_less)

lemma contains_rfind: "contains sub s \<longleftrightarrow> rfind s sub \<noteq> - 1"
proof
  assume "contains sub s"
  then obtain i where "i \<le> length s" "occurs_at s sub i" by (auto simp: contains_iff)
  then have "int i \<le> rfind s sub" unfolding rfind_def by (intro rfind_upto_highest)
  then show "rfind s sub \<noteq> - 1" by linarith
next
  assume "rfind s sub \<noteq> - 1"
  then have nn: "0 \<le> rfind s sub" "rfind s sub \<le> int (length s)"
    using rfind_upto_range [of s sub "length s"] by (simp_all add: rfind_def)
  then have "occurs_at s sub (nat (rfind s sub))"
    using rfind_upto_occurs [of s sub "length s"] by (simp add: rfind_def)
  moreover have "nat (rfind s sub) \<le> length s" using nn by linarith
  ultimately show "contains sub s" by (auto simp: contains_iff)
qed

lemma slice_window:
  "0 \<le> lo \<Longrightarrow> lo \<le> hi \<Longrightarrow> slice s lo hi = take (nat hi - nat lo) (drop (nat lo) s)"
  by (auto simp: slice_def py_bound_def Let_def min_def)

lemma length_slice_le: "lo \<le> hi \<Longrightarrow> 0 \<le> lo \<Longrightarrow> int (length (slice s lo hi)) \<le> hi - lo"
  by (simp add: slice_window)

lemma cut_point_bounds:
  assumes "0 < chunk_size" "0 \<le> start"
  shows "start < cut_point text chunk_size start \<and> cut_point text chunk_size start \<le> start + chunk_size"
proof -
  let ?chunk = "slice text start (start + chunk_size)"
  have len: "int (length ?chunk) \<le> chunk_size"
    using length_slice_le [of start "start + chunk_size" "text"] assms by simp
  have f: "rfind ?chunk fence = - 1 \<or> (0 \<le> rfind ?chunk fence \<and> rfind ?chunk fence + 3 \<le> int (length ?chunk))"
    using rfind_range [of fence ?chunk] by (simp add: fence_def)
  have b: "rfind ?chunk blank_line = - 1 \<or> (0 \<le> rfind ?chunk blank_line \<and> rfind ?chunk blank_line + 2 \<le> int (length ?chunk))"
    using rfind_range [of blank_line ?chunk] by (simp add: blank_line_def)
  have p: "rfind ?chunk sentence_end = - 1 \<or> (0 \<le> rfind ?chunk sentence_end \<and> rfind ?chunk sentence_end + 2 \<le> int (length ?chunk))"
    using rfind_range [of sentence_end ?chunk] by (simp add: sentence_end_def)
  show ?thesis
    using assms len f b p
    by (auto simp: cut_point_def adjust_end_def Let_def past_30_percent_def)
qed


lemma chunk_loop_induct:
  assumes step: "\<And>start chunks.
     (start < int (length doc) \<Longrightarrow> start + chunk_size < int (length doc) \<Longrightarrow>
        P (max (start + 1) (cut_point doc chunk_size start))
          (if strip (slice doc start (cut_point doc chunk_size start)) \<noteq> []
           then chunks @ [strip (slice doc start (cut_point doc chunk_size start))]
           else chunks))
     \<Longrightarrow> P start chunks"
  shows "P start chunks"
proof -
  have "\<forall>s c. nat (int (length doc) - s) = n \<longrightarrow> P s c" for n
  proof (induction n rule: less_induct)
    case (less n)
    show ?case
    proof (intro allI impI)
      fix s c
      assume eq: "nat (int (length doc) - s) = n"
      show "P s c"
      proof (rule step)
        assume a: "s < int (length doc)"
        have lt: "nat (int (length doc) - max (s + 1) (cut_point doc chunk_size s)) < n"
          using a eq by linarith
        show "P (max (s + 1) (cut_point doc chunk_size s))
          (if strip (slice doc s (cut_point doc chunk_size s)) \<noteq> []
           then c @ [strip (slice doc s (cut_point doc chunk_size s))]
           else c)"
          using less.IH [OF lt] by blast
      qed
    qed
  qed
  then show ?thesis by blast
qed

lemma chunk_loop_returns: "\<exists>r. chunk_loop doc chunk_size start chunks = Some r"
proof (rule chunk_loop_induct [where doc = doc and chunk_size = chunk_size])
  fix s c
  assume "s < int (length doc) \<Longrightarrow> s + chunk_size < int (length doc) \<Longrightarrow>
        \<exists>r. chunk_loop doc chunk_size (max (s + 1) (cut_point doc chunk_size s))
          (if strip (slice doc s (cut_point doc chunk_size s)) \<noteq> []
           then c @ [strip (slice doc s (cut_point doc chunk_size s))]
           else c) = Some r"
  then show "\<exists>r. chunk_loop doc chunk_size s c = Some r"
    by (subst chunk_loop.simps) (simp add: not_le)
qed

text \<open>A rule of total correctness for the loop: an invariant \<open>I\<close> and a postcondition \<open>Q\<close>.\<close>

lemma chunk_loop_rule:
  assumes init: "I start chunks"
    and step: "\<And>s c. I s c \<Longrightarrow> s < int (length doc) \<Longrightarrow> s + chunk_size < int (length doc) \<Longrightarrow>
        I (max (s + 1) (cut_point doc chunk_size s))
          (if strip (slice doc s (cut_point doc chunk_size s)) \<noteq> []
           then c @ [strip (slice doc s (cut_point doc chunk_size s))]
           else c)"
    and last: "\<And>s c. I s c \<Longrightarrow> s < int (length doc) \<Longrightarrow> int (length doc) \<le> s + chunk_size \<Longrightarrow>
        Q (c @ [strip (slice_from doc s)])"
    and stop: "\<And>s c. I s c \<Longrightarrow> int (length doc) \<le> s \<Longrightarrow> Q c"
  shows "\<exists>r. chunk_loop doc chunk_size start chunks = Some r \<and> Q r"
proof -
  have "I start chunks \<longrightarrow> (\<exists>r. chunk_loop doc chunk_size start chunks = Some r \<and> Q r)"
  proof (rule chunk_loop_induct [where doc = doc and chunk_size = chunk_size])
    fix s c
    assume ih: "s < int (length doc) \<Longrightarrow> s + chunk_size < int (length doc) \<Longrightarrow>
        I (max (s + 1) (cut_point doc chunk_size s))
          (if strip (slice doc s (cut_point doc chunk_size s)) \<noteq> []
           then c @ [strip (slice doc s (cut_point doc chunk_size s))]
           else c) \<longrightarrow>
        (\<exists>r. chunk_loop doc chunk_size (max (s + 1) (cut_point doc chunk_size s))
          (if strip (slice doc s (cut_point doc chunk_size s)) \<noteq> []
           then c @ [strip (slice doc s (cut_point doc chunk_size s))]
           else c) = Some r \<and> Q r)"
    show "I s c \<longrightarrow> (\<exists>r. chunk_loop doc chunk_size s c = Some r \<and> Q r)"
    proof
      assume i: "I s c"
      consider (a) "int (length doc) \<le> s"
        | (b) "s < int (length doc)" "int (length doc) \<le> s + chunk_size"
        | (c) "s < int (length doc)" "s + chunk_size < int (length doc)"
        by linarith
      then show "\<exists>r. chunk_loop doc chunk_size s c = Some r \<and> Q r"
      proof cases
        case a
        then show ?thesis using stop [OF i] by (subst chunk_loop.simps) simp
      next
        case b
        then show ?thesis using last [OF i] by (subst chunk_loop.simps) simp
      next
        case c
        from ih [OF c] step [OF i c] c show ?thesis
          by (subst chunk_loop.simps) simp
      qed
    qed
  qed
  then show ?thesis using init by simp
qed

section \<open>White space and reassembly\<close>

lemma blank_takeWhile: "blank (takeWhile is_space s)"
  by (induction s) (simp_all add: blank_def)

lemma blank_rev: "blank (rev s) = blank s"
  by (simp add: blank_def list_all_iff)

lemma blank_append: "blank (a @ b) \<longleftrightarrow> blank a \<and> blank b"
  by (simp add: blank_def)

lemma strip_decomp: "\<exists>a b. s = a @ strip s @ b \<and> blank a \<and> blank b"
proof -
  let ?d = "dropWhile is_space s"
  have "rev (takeWhile is_space (rev ?d) @ dropWhile is_space (rev ?d)) = rev (rev ?d)"
    by (simp only: takeWhile_dropWhile_id)
  then have "rev (dropWhile is_space (rev ?d)) @ rev (takeWhile is_space (rev ?d)) = ?d"
    by (simp only: rev_append rev_rev_ident)
  then have d: "?d = strip s @ rev (takeWhile is_space (rev ?d))"
    by (simp only: strip_def)
  have "s = takeWhile is_space s @ ?d" by simp
  with d have "s = takeWhile is_space s @ strip s @ rev (takeWhile is_space (rev ?d))"
    by simp
  moreover have "blank (takeWhile is_space s)" by (rule blank_takeWhile)
  moreover have "blank (rev (takeWhile is_space (rev ?d)))"
    by (simp add: blank_rev blank_takeWhile)
  ultimately show ?thesis by blast
qed

lemma strip_empty_blank: "strip s = [] \<Longrightarrow> blank s"
  using strip_decomp [of s] by (auto simp: blank_append)

lemma length_strip: "length (strip s) \<le> length s"
proof -
  obtain a b where "s = a @ strip s @ b" using strip_decomp [of s] by blast
  then have "length s = length a + length (strip s) + length b"
    by (metis length_append add.assoc)
  then show ?thesis by simp
qed

lemma weave_gap: "length ws = length cs \<Longrightarrow> weave (ws @ [w @ p]) cs = weave (ws @ [w]) cs @ p"
  by (induction ws cs rule: list_induct2) simp_all

lemma weave_chunk:
  "length ws = length cs \<Longrightarrow> weave (ws @ [w, b]) (cs @ [c]) = weave (ws @ [w]) cs @ c @ b"
  by (induction ws cs rule: list_induct2) simp_all

lemma woven_extend:
  assumes w: "woven doc s c" and le: "s \<le> e"
    and piece: "take (nat e) doc = take (nat s) doc @ piece"
  shows "woven doc e (if strip piece \<noteq> [] then c @ [strip piece] else c)"
    and "woven doc e (c @ [strip piece])"
proof -
  from w obtain ws where ws: "length ws = Suc (length c)" "list_all blank ws"
      "weave ws c = take (nat s) doc" and s0: "0 \<le> s"
    by (auto simp: woven_def)
  from ws(1) obtain ws' w' where split: "ws = ws' @ [w']" and len: "length ws' = length c"
    by (cases ws rule: rev_cases) auto
  obtain a b where ab: "piece = a @ strip piece @ b" "blank a" "blank b"
    using strip_decomp [of piece] by blast
  have bl: "list_all blank ws'" "blank w'" using ws(2) split by simp_all
  have e0: "0 \<le> e" using s0 le by simp
  have "weave (ws' @ [w' @ a, b]) (c @ [strip piece]) = take (nat e) doc"
    using weave_chunk [OF len, of w' b "strip piece"] weave_gap [OF len, of w' a] ws(3) split piece ab(1)
    by (metis append.assoc weave_chunk len)
  moreover have "list_all blank (ws' @ [w' @ a, b])"
    using bl ab by (simp add: blank_append)
  moreover have "length (ws' @ [w' @ a, b]) = Suc (length (c @ [strip piece]))"
    using len by simp
  ultimately show 2: "woven doc e (c @ [strip piece])"
    unfolding woven_def using e0 by blast
  show "woven doc e (if strip piece \<noteq> [] then c @ [strip piece] else c)"
  proof (cases "strip piece = []")
    case False
    then show ?thesis using 2 by simp
  next
    case True
    then have "blank piece" by (rule strip_empty_blank)
    moreover have "weave (ws' @ [w' @ piece]) c = take (nat e) doc"
      using weave_gap [OF len, of w' piece] ws(3) split piece by simp
    moreover have "length (ws' @ [w' @ piece]) = Suc (length c)" using len by simp
    ultimately have "woven doc e c"
      unfolding woven_def using e0 bl by (intro conjI exI [of _ "ws' @ [w' @ piece]"]) (simp_all add: blank_append)
    then show ?thesis using True by simp
  qed
qed

lemma slice_from_window: "0 \<le> lo \<Longrightarrow> slice_from s lo = drop (nat lo) s"
  by (simp add: slice_from_def py_bound_def min_def)

lemma take_slice:
  assumes "0 \<le> s" "s \<le> e"
  shows "take (nat e) doc = take (nat s) doc @ slice doc s e"
proof -
  have "nat e = nat s + (nat e - nat s)" using assms by simp
  then have "take (nat e) doc = take (nat s + (nat e - nat s)) doc" by simp
  also have "\<dots> = take (nat s) doc @ take (nat e - nat s) (drop (nat s) doc)"
    by (rule take_add)
  finally show ?thesis using assms by (simp add: slice_window)
qed

lemma next_start_cut:
  "0 < chunk_size \<Longrightarrow> 0 \<le> s \<Longrightarrow>
     max (s + 1) (cut_point doc chunk_size s) = cut_point doc chunk_size s"
  using cut_point_bounds [of chunk_size s doc] by simp

section \<open>The chunker: reconstruction, size and termination\<close>

text \<open>
  Claim C1. For every text and every positive chunk size, \<^const>\<open>chunk_text\<close> returns,
  and the chunks it returns reconstruct the text exactly and in order: there are strings
  \<open>w0, ..., wN\<close> of white space only, one more than there are chunks, with
  \<open>text = w0 @ c0 @ w1 @ c1 @ ... @ c(N-1) @ wN\<close>.
\<close>

theorem chunk_text_reconstructs:
  assumes pos: "0 < chunk_size"
  shows "\<exists>chunks ws. chunk_text text chunk_size = Some chunks \<and>
           length ws = Suc (length chunks) \<and> list_all blank ws \<and> weave ws chunks = text"
proof -
  let ?Q = "\<lambda>r. \<exists>ws. length ws = Suc (length r) \<and> list_all blank ws \<and> weave ws r = text"
  have "\<exists>r. chunk_loop text chunk_size 0 [] = Some r \<and> ?Q r"
  proof (rule chunk_loop_rule [where I = "woven text"])
    show "woven text 0 []"
      by (auto simp: woven_def blank_def intro!: exI [of _ "[[]]"])
  next
    fix s c
    assume w: "woven text s c"
    then have s0: "0 \<le> s" by (simp add: woven_def)
    let ?e = "cut_point text chunk_size s"
    have b: "s < ?e" using cut_point_bounds [OF pos s0] by simp
    have "woven text ?e (if strip (slice text s ?e) \<noteq> [] then c @ [strip (slice text s ?e)] else c)"
      using w b take_slice [OF s0, of ?e "text"] by (intro woven_extend(1)) simp_all
    then show "woven text (max (s + 1) ?e)
          (if strip (slice text s ?e) \<noteq> [] then c @ [strip (slice text s ?e)] else c)"
      by (simp add: next_start_cut [OF pos s0])
  next
    fix s c
    assume w: "woven text s c" and lt: "s < int (length text)"
    then have s0: "0 \<le> s" by (simp add: woven_def)
    have "take (nat (int (length text))) text = take (nat s) text @ slice_from text s"
      by (simp add: slice_from_window [OF s0])
    then have "woven text (int (length text)) (c @ [strip (slice_from text s)])"
      using w lt by (intro woven_extend(2)) simp_all
    then show "?Q (c @ [strip (slice_from text s)])"
      by (simp add: woven_def)
  next
    fix s c
    assume w: "woven text s c" and ge: "int (length text) \<le> s"
    then show "?Q c" by (auto simp: woven_def)
  qed
  then show ?thesis by (simp add: chunk_text_def)
qed

theorem chunk_text_reconstructs_witness:
  "(0::int) < 5 \<and>
   chunk_text ''ab. cd efgh  ijk'' 5 = Some [''ab.'', ''cd e'', ''fgh'', ''ijk''] \<and>
   (\<exists>ws. length ws = Suc (length [''ab.'', ''cd e'', ''fgh'', ''ijk'']) \<and> list_all blank ws \<and>
      weave ws [''ab.'', ''cd e'', ''fgh'', ''ijk''] = ''ab. cd efgh  ijk'') \<and>
   weave [[], '' '', [], ''  '', []] [''ab.'', ''cd e'', ''fgh'', ''ijk''] = ''ab. cd efgh  ijk''"
proof -
  have v: "chunk_text ''ab. cd efgh  ijk'' 5 = Some [''ab.'', ''cd e'', ''fgh'', ''ijk'']"
    by code_simp
  have p: "(0::int) < 5" by simp
  from chunk_text_reconstructs [OF p, of "''ab. cd efgh  ijk''"] v
  have "\<exists>ws. length ws = Suc (length [''ab.'', ''cd e'', ''fgh'', ''ijk'']) \<and> list_all blank ws \<and>
      weave ws [''ab.'', ''cd e'', ''fgh'', ''ijk''] = ''ab. cd efgh  ijk''"
    by (elim exE conjE) (simp only: option.inject, blast)
  moreover have "weave [[], '' '', [], ''  '', []] [''ab.'', ''cd e'', ''fgh'', ''ijk'']
                   = ''ab. cd efgh  ijk''"
    by simp
  ultimately show ?thesis using p v by (intro conjI)
qed

text \<open>
  Claim C10. For every text and every positive chunk size, \<^const>\<open>chunk_text\<close> returns,
  and every chunk it returns, the remainder included, is at most \<open>chunk_size\<close> characters
  long.
\<close>

theorem chunk_text_bounded:
  assumes pos: "0 < chunk_size"
  shows "\<exists>chunks. chunk_text text chunk_size = Some chunks \<and>
           list_all (\<lambda>c. int (length c) \<le> chunk_size) chunks"
proof -
  let ?B = "list_all (\<lambda>c. int (length c) \<le> chunk_size)"
  have "\<exists>r. chunk_loop text chunk_size 0 [] = Some r \<and> ?B r"
  proof (rule chunk_loop_rule [where I = "\<lambda>s c. 0 \<le> s \<and> ?B c"])
    show "0 \<le> (0::int) \<and> ?B []" by simp
  next
    fix s :: int and c :: "string list"
    assume i: "0 \<le> s \<and> ?B c"
    let ?e = "cut_point text chunk_size s"
    have b: "s < ?e" "?e \<le> s + chunk_size" using cut_point_bounds [OF pos, of s "text"] i by simp_all
    have "int (length (strip (slice text s ?e))) \<le> int (length (slice text s ?e))"
      using length_strip [of "slice text s ?e"] by simp
    also have "\<dots> \<le> ?e - s" using length_slice_le [of s ?e "text"] b i by simp
    also have "\<dots> \<le> chunk_size" using b by simp
    finally show "0 \<le> max (s + 1) ?e \<and>
        ?B (if strip (slice text s ?e) \<noteq> [] then c @ [strip (slice text s ?e)] else c)"
      using i by (simp add: max_def)
  next
    fix s :: int and c :: "string list"
    assume i: "0 \<le> s \<and> ?B c" and lt: "s < int (length text)"
      and ge: "int (length text) \<le> s + chunk_size"
    have "int (length (strip (slice_from text s))) \<le> int (length (slice_from text s))"
      using length_strip [of "slice_from text s"] by simp
    also have "\<dots> \<le> chunk_size" using i lt ge by (simp add: slice_from_window)
    finally show "?B (c @ [strip (slice_from text s)])" using i by simp
  next
    fix s :: int and c :: "string list"
    assume "0 \<le> s \<and> ?B c"
    then show "?B c" by simp
  qed
  then show ?thesis by (simp add: chunk_text_def)
qed

theorem chunk_text_bounded_witness:
  "(0::int) < 5 \<and>
   chunk_text ''ab. cd efgh  ijk'' 5 = Some [''ab.'', ''cd e'', ''fgh'', ''ijk''] \<and>
   list_all (\<lambda>c. int (length c) \<le> 5) [''ab.'', ''cd e'', ''fgh'', ''ijk'']"
proof -
  have v: "chunk_text ''ab. cd efgh  ijk'' 5 = Some [''ab.'', ''cd e'', ''fgh'', ''ijk'']"
    by code_simp
  have p: "(0::int) < 5" by simp
  from chunk_text_bounded [OF p, of "''ab. cd efgh  ijk''"] v
  have "list_all (\<lambda>c. int (length c) \<le> 5) [''ab.'', ''cd e'', ''fgh'', ''ijk'']"
    by (elim exE conjE) (simp only: option.inject)
  with p v show ?thesis by (intro conjI)
qed

text \<open>
  Claim C9. For every text and every positive chunk size, \<^const>\<open>chunk_text\<close> returns, and
  so does the loop from every \<open>start\<close> and every list of chunks collected so far. The
  next value of \<open>start\<close>, the greater of \<open>start + 1\<close> and the cut point, is strictly
  greater than \<open>start\<close>. The loop ends with the stripped remainder appended when the
  candidate end reaches or passes the length of the text, and with the chunks unchanged
  when \<open>start\<close> has reached the length of the text.
\<close>

theorem chunk_text_terminates:
  "0 < chunk_size \<Longrightarrow>
     (\<exists>chunks. chunk_text text chunk_size = Some chunks) \<and>
     (\<exists>chunks. chunk_loop text chunk_size start acc = Some chunks) \<and>
     start < max (start + 1) (cut_point text chunk_size start) \<and>
     (start < int (length text) \<and> int (length text) \<le> start + chunk_size \<longrightarrow>
        chunk_loop text chunk_size start acc = Some (acc @ [strip (slice_from text start)])) \<and>
     (int (length text) \<le> start \<longrightarrow> chunk_loop text chunk_size start acc = Some acc)"
proof -
  have a: "\<exists>chunks. chunk_text text chunk_size = Some chunks"
    unfolding chunk_text_def by (rule chunk_loop_returns)
  have b: "\<exists>chunks. chunk_loop text chunk_size start acc = Some chunks"
    by (rule chunk_loop_returns)
  have c: "start < int (length text) \<and> int (length text) \<le> start + chunk_size \<longrightarrow>
        chunk_loop text chunk_size start acc = Some (acc @ [strip (slice_from text start)])"
    by (subst chunk_loop.simps) simp
  have d: "int (length text) \<le> start \<longrightarrow> chunk_loop text chunk_size start acc = Some acc"
    by (subst chunk_loop.simps) simp
  show ?thesis using a b c d by simp
qed

theorem chunk_text_terminates_witness:
  "(0::int) < 5 \<and>
   chunk_text ''abcde fgh'' 5 = Some [''abcde'', ''fgh''] \<and>
   (5::int) < max (5 + 1) (cut_point ''abcde fgh'' 5 5) \<and>
   (5::int) < int (length ''abcde fgh'') \<and> int (length ''abcde fgh'') \<le> 5 + 5 \<and>
   chunk_loop ''abcde fgh'' 5 5 [''abcde''] = Some ([''abcde''] @ [strip (slice_from ''abcde fgh'' 5)]) \<and>
   int (length ''abcde fgh'') \<le> 9 \<and>
   chunk_loop ''abcde fgh'' 5 9 [''abcde''] = Some [''abcde'']"
proof -
  have v: "chunk_text ''abcde fgh'' 5 = Some [''abcde'', ''fgh'']" by code_simp
  show ?thesis
    using chunk_text_terminates [of 5 "''abcde fgh''" 5 "[''abcde'']"]
      chunk_text_terminates [of 5 "''abcde fgh''" 9 "[''abcde'']"] v
    by simp
qed

section \<open>The chunker: cut points\<close>

lemma occurs_at_set: "occurs_at s sub i \<Longrightarrow> set sub \<subseteq> set s"
proof -
  assume "occurs_at s sub i"
  then have "set sub = set (take (length sub) (drop i s))" by (simp add: occurs_at_def)
  also have "\<dots> \<subseteq> set (drop i s)" by (rule set_take_subset)
  also have "\<dots> \<subseteq> set s" by (rule set_drop_subset)
  finally show ?thesis .
qed

lemma contains_set: "contains sub s \<Longrightarrow> set sub \<subseteq> set s"
  by (auto simp: contains_iff dest: occurs_at_set)

lemma set_slice: "set (slice s lo hi) \<subseteq> set s"
proof -
  have "set (slice s lo hi) \<subseteq> set (drop (py_bound lo (length s)) s)"
    unfolding slice_def Let_def by (rule set_take_subset)
  also have "\<dots> \<subseteq> set s" by (rule set_drop_subset)
  finally show ?thesis .
qed

lemma adjust_end_raw:
  assumes "\<not> contains fence chunk" "\<not> contains blank_line chunk" "\<not> contains sentence_end chunk"
  shows "adjust_end chunk chunk_size start e = e"
  using assms by (simp add: adjust_end_def contains_rfind)

lemma cut_point_raw:
  assumes "CHR 0x60 \<notin> set doc" "CHR 0x0A \<notin> set doc" "CHR ''.'' \<notin> set doc"
  shows "cut_point doc chunk_size start = start + chunk_size"
proof -
  let ?w = "slice doc start (start + chunk_size)"
  have sub: "set ?w \<subseteq> set doc" by (rule set_slice)
  have "\<not> contains fence ?w" using contains_set [of fence ?w] sub assms(1) by (auto simp: fence_def)
  moreover have "\<not> contains blank_line ?w"
    using contains_set [of blank_line ?w] sub assms(2) by (auto simp: blank_line_def)
  moreover have "\<not> contains sentence_end ?w"
    using contains_set [of sentence_end ?w] sub assms(3) by (auto simp: sentence_end_def)
  ultimately show ?thesis unfolding cut_point_def by (rule adjust_end_raw)
qed

lemma strip_replicate: "\<not> is_space c \<Longrightarrow> strip (replicate n c) = replicate n c"
  by (cases n) (simp_all add: strip_def replicate_append_same [symmetric] del: replicate_Suc)

lemma twelve_thousand_cut: "cut_point twelve_thousand 5000 start = start + 5000"
  by (rule cut_point_raw) (simp_all add: twelve_thousand_def)

lemma twelve_thousand_slices:
  "slice twelve_thousand 0 5000 = replicate 5000 (CHR ''A'')"
  "slice twelve_thousand 5000 10000 = replicate 5000 (CHR ''A'')"
  "slice_from twelve_thousand 10000 = replicate 2000 (CHR ''A'')"
  by (simp_all add: twelve_thousand_def slice_def slice_from_def py_bound_def)

text \<open>
  Claim C8. The text of 12000 letters \<open>A\<close> with the default chunk size 5000 yields exactly
  three chunks, of 5000, 5000 and 2000 letters, and both cuts are at the raw boundary of
  the window (5000 and 10000).
\<close>

theorem chunk_text_twelve_thousand:
  "default_chunk_size = 5000 \<and>
   chunk_text twelve_thousand default_chunk_size =
     Some [replicate 5000 (CHR ''A''), replicate 5000 (CHR ''A''), replicate 2000 (CHR ''A'')] \<and>
   map length [replicate 5000 (CHR ''A''), replicate 5000 (CHR ''A''), replicate 2000 (CHR ''A'')]
     = [5000, 5000, 2000] \<and>
   cut_point twelve_thousand default_chunk_size 0 = 5000 \<and>
   cut_point twelve_thousand default_chunk_size 5000 = 10000"
proof -
  have sp: "\<not> is_space (CHR ''A'')" by (simp add: is_space_def)
  have len: "length twelve_thousand = 12000" by (simp add: twelve_thousand_def)
  have 3: "chunk_loop twelve_thousand 5000 10000 cs
             = Some (cs @ [replicate 2000 (CHR ''A'')])" for cs
    by (subst chunk_loop.simps)
      (simp add: len twelve_thousand_slices strip_replicate [OF sp])
  have 2: "chunk_loop twelve_thousand 5000 5000 cs
             = Some (cs @ [replicate 5000 (CHR ''A''), replicate 2000 (CHR ''A'')])" for cs
    by (subst chunk_loop.simps)
      (simp add: len twelve_thousand_cut twelve_thousand_slices strip_replicate [OF sp] 3)
  have 1: "chunk_loop twelve_thousand 5000 0 []
             = Some [replicate 5000 (CHR ''A''), replicate 5000 (CHR ''A''), replicate 2000 (CHR ''A'')]"
    by (subst chunk_loop.simps)
      (simp add: len twelve_thousand_cut twelve_thousand_slices strip_replicate [OF sp] 2)
  show ?thesis
    by (simp add: default_chunk_size_def chunk_text_def 1 twelve_thousand_cut)
qed

text \<open>
  Claim C4, as amended. In a window where no fence lies strictly after 30 percent of
  \<open>chunk_size\<close>, where there is no paragraph break at all, and where a sentence end
  \<^verbatim>\<open>'. '\<close> lies strictly after 30 percent of \<open>chunk_size\<close>, the cut is just after the
  full stop of the last sentence end of the window: at \<open>start + p + 1\<close>, where \<open>p\<close> is the
  highest index at which \<^verbatim>\<open>'. '\<close> occurs in the window.
\<close>

theorem sentence_rule_cut:
  assumes no_fence: "\<forall>i. occurs_at (slice text start (start + chunk_size)) fence i \<longrightarrow>
                       \<not> past_30_percent (int i) chunk_size"
    and no_break: "\<forall>i. \<not> occurs_at (slice text start (start + chunk_size)) blank_line i"
    and period: "occurs_at (slice text start (start + chunk_size)) sentence_end i"
    and late: "past_30_percent (int i) chunk_size"
  shows "\<exists>p. occurs_at (slice text start (start + chunk_size)) sentence_end p \<and>
             (\<forall>j. occurs_at (slice text start (start + chunk_size)) sentence_end j \<longrightarrow> j \<le> p) \<and>
             past_30_percent (int p) chunk_size \<and>
             cut_point text chunk_size start = start + int p + 1"
proof -
  let ?w = "slice text start (start + chunk_size)"
  let ?p = "rfind ?w sentence_end"
  have ne: "sentence_end \<noteq> []" by (simp add: sentence_end_def)
  have i_le: "i \<le> length ?w" using occurs_at_bound [OF ne period] by simp
  have hi: "int i \<le> ?p" unfolding rfind_def using period i_le by (rule rfind_upto_highest)
  then have p0: "0 \<le> ?p" by simp
  have occ: "occurs_at ?w sentence_end (nat ?p)"
    using rfind_upto_occurs [of ?w sentence_end "length ?w"] p0 by (simp add: rfind_def)
  have top: "j \<le> nat ?p" if "occurs_at ?w sentence_end j" for j
  proof -
    have "j \<le> length ?w" using occurs_at_bound [OF ne that] by simp
    with that have "int j \<le> ?p" unfolding rfind_def by (rule rfind_upto_highest)
    then show ?thesis by simp
  qed
  have late_p: "past_30_percent ?p chunk_size"
    using late hi by (simp add: past_30_percent_def)
  have f: "\<not> (rfind ?w fence \<noteq> - 1 \<and> past_30_percent (rfind ?w fence) chunk_size)"
  proof
    assume a: "rfind ?w fence \<noteq> - 1 \<and> past_30_percent (rfind ?w fence) chunk_size"
    then have f0: "0 \<le> rfind ?w fence"
      using rfind_upto_range [of ?w fence "length ?w"] by (simp add: rfind_def)
    then have "occurs_at ?w fence (nat (rfind ?w fence))"
      using rfind_upto_occurs [of ?w fence "length ?w"] by (simp add: rfind_def)
    then have "\<not> past_30_percent (int (nat (rfind ?w fence))) chunk_size"
      using no_fence by blast
    then show False using a f0 by simp
  qed
  have b: "\<not> contains blank_line ?w" using no_break by (simp add: contains_iff)
  have s: "contains sentence_end ?w" using period i_le by (auto simp: contains_iff)
  have "cut_point text chunk_size start = start + ?p + 1"
    using f b s late_p by (auto simp: cut_point_def adjust_end_def Let_def)
  then have "cut_point text chunk_size start = start + int (nat ?p) + 1" using p0 by simp
  moreover have "past_30_percent (int (nat ?p)) chunk_size" using late_p p0 by simp
  ultimately show ?thesis using occ top by blast
qed

theorem sentence_rule_cut_witness:
  "occurs_at (slice sentence_text 0 (0 + 10)) sentence_end 7 \<and>
   past_30_percent (int 7) 10 \<and>
   (\<exists>p. occurs_at (slice sentence_text 0 (0 + 10)) sentence_end p \<and>
        (\<forall>j. occurs_at (slice sentence_text 0 (0 + 10)) sentence_end j \<longrightarrow> j \<le> p) \<and>
        past_30_percent (int p) 10 \<and>
        cut_point sentence_text 10 0 = 0 + int p + 1) \<and>
   cut_point sentence_text 10 0 = 8"
proof -
  have w: "slice sentence_text 0 (0 + 10) = ''aaaa bb. c''"
    by (simp add: sentence_text_def slice_def py_bound_def)
  have 1: "\<forall>i. occurs_at (slice sentence_text 0 (0 + 10)) fence i \<longrightarrow> \<not> past_30_percent (int i) 10"
    unfolding w by (auto dest!: occurs_at_set simp: fence_def)
  have 2: "\<forall>i. \<not> occurs_at (slice sentence_text 0 (0 + 10)) blank_line i"
    unfolding w by (auto dest!: occurs_at_set simp: blank_line_def)
  have 3: "occurs_at (slice sentence_text 0 (0 + 10)) sentence_end 7"
    unfolding w by (simp add: occurs_at_def sentence_end_def)
  have 4: "past_30_percent (int 7) 10" by (simp add: past_30_percent_def)
  have 5: "cut_point sentence_text 10 0 = 8" by code_simp
  show ?thesis using sentence_rule_cut [OF 1 2 3 4] 3 4 5 by simp
qed

text \<open>
  Claim C4, as stated, lets the sentence rule apply when every paragraph break of the
  window fails the 30 percent test. The code tests \<^verbatim>\<open>'\n\n' in chunk\<close> first, and a window
  with a paragraph break never reaches the sentence rule: in the text below the window of
  10 characters has no fence, its only paragraph break at index 1 (not after 30 percent)
  and a sentence end at index 7 (after 30 percent), and the cut is the raw boundary 10,
  not 8.
\<close>

theorem sentence_rule_skipped:
  "rfind (slice early_break_text 0 10) fence = - 1 \<and>
   rfind (slice early_break_text 0 10) blank_line = 1 \<and> \<not> past_30_percent 1 10 \<and>
   rfind (slice early_break_text 0 10) sentence_end = 7 \<and> past_30_percent 7 10 \<and>
   cut_point early_break_text 10 0 = 10 \<and> cut_point early_break_text 10 0 \<noteq> 0 + 7 + 1 \<and>
   chunk_text early_break_text 10 = Some [''a'' @ blank_line @ ''bbbb. c'', ''ccc'']"
  by code_simp

section \<open>The chunker: the remainder\<close>

text \<open>
  Claim C3 says that no returned chunk is the empty string, the remainder included. The
  loop drops an empty chunk (\<^verbatim>\<open>if chunk:\<close>), the branch of the remainder appends it
  unchecked: a text of one space yields the list of one empty string (\<open>[]\<close>, as a
  \<^typ>\<open>string\<close>), and a remainder of one space after a full window yields an empty last
  chunk.
\<close>

theorem chunk_text_empty_remainder:
  "chunk_text '' '' 5000 = Some [[]] \<and> chunk_text ''abcde '' 5 = Some [''abcde'', []]"
  by code_simp

section \<open>The enricher: sentinels and the missing key\<close>




text \<open>
  Claim C2 says that \<^const>\<open>process_chunk\<close> returns a chunk whatever the provider answers,
  an answer without the key \<^verbatim>\<open>title\<close> included. The \<^verbatim>\<open>try\<close> block of
  \<^verbatim>\<open>get_title_and_summary\<close> ends before the dictionary is read: when the provider answers
  with the JSON object \<^verbatim>\<open>{}\<close>, \<^verbatim>\<open>extracted['title']\<close> raises \<^verbatim>\<open>KeyError\<close> and
  \<^const>\<open>process_chunk\<close> raises it to its caller.
\<close>

theorem process_chunk_raises_key_error:
  "process_chunk keyless_world ''abc'' 0 introduction = Inl (KeyError ''title'')"
  by (simp add: process_chunk_def get_title_and_summary_def keyless_world_def failing_world_def)

section \<open>The document pipeline\<close>

lemma gather_Inr: "gather rs = Inr xs \<Longrightarrow> rs = map Inr xs"
proof (induction rs arbitrary: xs)
  case Nil
  then show ?case by simp
next
  case (Cons r rs)
  then show ?case by (cases r) (auto split: sum.splits)
qed

lemma process_chunk_number: "process_chunk w chunk i a = Inr p \<Longrightarrow> chunk_number p = i"
  by (auto simp: process_chunk_def Let_def split: sum.splits)

lemma enumerate_numbers:
  "map (\<lambda>(c, i, a). i) (map (\<lambda>(i, chunk). (chunk, int i, address)) (enumerate n chunks))
     = map int [n..<n + length chunks]"
proof -
  have "map (\<lambda>(c, i, a). i) (map (\<lambda>(i, chunk). (chunk, int i, address)) (enumerate n chunks))
          = map (int \<circ> fst) (enumerate n chunks)"
    by (simp add: comp_def case_prod_beta)
  also have "\<dots> = map int (map fst (enumerate n chunks))"
    by (simp only: map_map)
  also have "\<dots> = map int [n..<n + length chunks]"
    by (simp only: map_fst_enumerate)
  finally show ?thesis .
qed

lemma document_calls:
  assumes "chunk_text markdown default_chunk_size = Some chunks"
  shows "\<exists>run. process_and_store_document w address markdown = Some run \<and>
           enricher_calls run = map (\<lambda>(i, chunk). (chunk, int i, address)) (enumerate 0 chunks) \<and>
           length (enricher_calls run) = length chunks \<and>
           map (\<lambda>(c, i, a). i) (enricher_calls run) = map int [0..<length chunks] \<and>
           (raised run = None \<longrightarrow>
              length (store_calls run) = length chunks \<and>
              map (\<lambda>(p, r). chunk_number p) (store_calls run) = map int [0..<length chunks])"
proof -
  let ?tasks = "map (\<lambda>(i, chunk). (chunk, int i, address)) (enumerate 0 chunks)"
  let ?results = "map (\<lambda>(chunk, i, a). process_chunk w chunk i a) ?tasks"
  have n: "map (\<lambda>(c, i, a). i) ?tasks = map int [0..<length chunks]"
    using enumerate_numbers [of address 0 chunks] by simp
  show ?thesis
  proof (cases "gather ?results")
    case (Inl e)
    then show ?thesis using assms n by (simp add: process_and_store_document_def)
  next
    case (Inr ps)
    then have eq: "?results = map Inr ps" by (rule gather_Inr)
    then have len: "length ps = length chunks"
      by (metis length_map length_enumerate)
    have "chunk_number (ps ! k) = int k" if "k < length ps" for k
    proof -
      have "?results ! k = Inr (ps ! k)" using eq that by simp
      moreover have "?results ! k = process_chunk w (chunks ! k) (int k) address"
        using that len by (simp add: nth_enumerate_eq)
      ultimately show ?thesis using process_chunk_number by metis
    qed
    then have "map chunk_number ps = map int [0..<length chunks]"
      using len by (intro nth_equalityI) simp_all
    then have "map (\<lambda>(p, r). chunk_number p) (map (\<lambda>c. (c, insert_chunk w c)) ps)
                 = map int [0..<length chunks]"
      by (simp add: comp_def)
    then show ?thesis using assms n Inr len by (simp add: process_and_store_document_def)
  qed
qed

text \<open>
  Claim C5 says that a document of \<open>N\<close> chunks leads to exactly \<open>N\<close> calls of
  \<^verbatim>\<open>process_chunk\<close> and exactly \<open>N\<close> calls of \<^verbatim>\<open>insert_chunk\<close>. The calls of
  \<^verbatim>\<open>process_chunk\<close> are always \<open>N\<close>, numbered from 0 to \<open>N - 1\<close>, and so are the calls of
  \<^verbatim>\<open>insert_chunk\<close> when no call of \<^verbatim>\<open>process_chunk\<close> raises (the lemma above). When the
  provider answers with the JSON object \<^verbatim>\<open>{}\<close>, \<^verbatim>\<open>process_chunk\<close> raises \<^verbatim>\<open>KeyError\<close>,
  \<^verbatim>\<open>asyncio.gather\<close> raises it in turn, and \<^verbatim>\<open>insert_chunk\<close> is never called: a document of one
  chunk leads to no insertion.
\<close>

theorem document_run_missing_key:
  "chunk_text ''abc'' default_chunk_size = Some [''abc''] \<and>
   process_and_store_document keyless_world introduction ''abc'' =
     Some \<lparr>enricher_calls = [(''abc'', 0, introduction)], store_calls = [],
           raised = Some (KeyError ''title'')\<rparr>"
proof -
  have c: "chunk_text ''abc'' default_chunk_size = Some [''abc'']" by code_simp
  have p: "process_chunk keyless_world ''abc'' 0 introduction = Inl (KeyError ''title'')"
    by (simp add: process_chunk_def get_title_and_summary_def keyless_world_def failing_world_def)
  show ?thesis by (simp add: c p process_and_store_document_def enumerate_simps)
qed

section \<open>The crawl orchestrator: the admission gate\<close>

lemma count_update:
  "i < length xs \<Longrightarrow>
     length (filter P (xs[i := y])) + (if P (xs ! i) then 1 else 0)
       = length (filter P xs) + (if P y then 1 else 0)"
proof (induction xs arbitrary: i)
  case Nil
  then show ?case by simp
next
  case (Cons x xs)
  show ?case
  proof (cases i)
    case 0
    then show ?thesis by simp
  next
    case (Suc k)
    then have "k < length xs" using Cons.prems by simp
    from Cons.IH [OF this] Suc show ?thesis by simp
  qed
qed

lemma process_url_permits:
  assumes "process_url s e = Some s'"
  shows "permits s' + holding s' = permits s + holding s"
proof (cases e)
  case (Acquire i)
  with assms have a: "i < length (tasks s)" "tasks s ! i = Waiting" "0 < permits s"
    and s': "s' = s\<lparr>permits := permits s - 1, tasks := (tasks s)[i := Fetching]\<rparr>"
    by (auto simp: at_task_def split: if_splits)
  show ?thesis
    using count_update [OF a(1), of "\<lambda>t. t = Fetching \<or> t = Storing" Fetching] a s'
    by (simp add: holding_def)
next
  case (Fetch_Ok i)
  with assms have a: "i < length (tasks s)" "tasks s ! i = Fetching"
    and s': "s' = s\<lparr>tasks := (tasks s)[i := Storing]\<rparr>"
    by (auto simp: at_task_def split: if_splits)
  show ?thesis
    using count_update [OF a(1), of "\<lambda>t. t = Fetching \<or> t = Storing" Storing] a s'
    by (simp add: holding_def)
next
  case (Fetch_Failed i)
  with assms have a: "i < length (tasks s)" "tasks s ! i = Fetching"
    and s': "s' = s\<lparr>permits := permits s + 1, tasks := (tasks s)[i := Finished]\<rparr>"
    by (auto simp: at_task_def split: if_splits)
  show ?thesis
    using count_update [OF a(1), of "\<lambda>t. t = Fetching \<or> t = Storing" Finished] a s'
    by (simp add: holding_def)
next
  case (Stored i)
  with assms have a: "i < length (tasks s)" "tasks s ! i = Storing"
    and s': "s' = s\<lparr>permits := permits s + 1, tasks := (tasks s)[i := Finished]\<rparr>"
    by (auto simp: at_task_def split: if_splits)
  show ?thesis
    using count_update [OF a(1), of "\<lambda>t. t = Fetching \<or> t = Storing" Finished] a s'
    by (simp add: holding_def)
next
  case (Cancelled i)
  with assms have a: "i < length (tasks s)" "tasks s ! i = Waiting"
    and s': "s' = s\<lparr>tasks := (tasks s)[i := Finished]\<rparr>"
    by (auto simp: at_task_def split: if_splits)
  show ?thesis
    using count_update [OF a(1), of "\<lambda>t. t = Fetching \<or> t = Storing" Finished] a s'
    by (simp add: holding_def)
qed

lemma crawl_run_permits:
  "crawl_run s es = Some s' \<Longrightarrow> permits s' + holding s' = permits s + holding s"
proof (induction es arbitrary: s)
  case Nil
  then show ?case by simp
next
  case (Cons e es)
  then obtain m where m: "process_url s e = Some m" "crawl_run m es = Some s'"
    by (auto split: option.splits)
  from Cons.IH [OF m(2)] process_url_permits [OF m(1)] show ?case by simp
qed

lemma in_flight_holding: "in_flight s \<le> holding s"
proof -
  have "length (filter (\<lambda>t. t = Fetching) xs) \<le> length (filter (\<lambda>t. t = Fetching \<or> t = Storing) xs)"
    for xs :: "task list"
    by (induction xs) simp_all
  then show ?thesis by (simp add: in_flight_def holding_def)
qed

lemma holding_start: "holding (crawl_start urls max_concurrent) = 0"
  by (simp add: holding_def crawl_start_def filter_empty_conv)

text \<open>
  Claim C7. For every list of URLs, every positive \<open>max_concurrent\<close> and every schedule of
  the tasks, the state reached has at most \<open>max_concurrent\<close> fetches in flight; the permits
  left and the tasks inside the \<^verbatim>\<open>async with\<close> block add up to \<open>max_concurrent\<close>; a task can
  begin its fetch only when fewer than \<open>max_concurrent\<close> fetches are in flight; and a task
  that ends, after a failed fetch or after the document pipeline, gives its permit back.
\<close>

theorem crawl_parallel_bounded:
  assumes pos: "0 < max_concurrent"
    and run: "crawl_parallel urls max_concurrent schedule = Some s"
  shows "in_flight s \<le> max_concurrent \<and>
         permits s + holding s = max_concurrent \<and>
         (\<forall>i s'. process_url s (Acquire i) = Some s' \<longrightarrow>
            in_flight s < max_concurrent \<and> in_flight s' \<le> max_concurrent) \<and>
         (\<forall>i s'. process_url s (Fetch_Failed i) = Some s' \<or> process_url s (Stored i) = Some s' \<longrightarrow>
            permits s' = permits s + 1)"
proof -
  have inv: "permits s + holding s = max_concurrent"
  proof -
    have "crawl_run (crawl_start urls max_concurrent) schedule = Some s"
      using run by (simp only: crawl_parallel_def)
    then have "permits s + holding s
                 = permits (crawl_start urls max_concurrent) + holding (crawl_start urls max_concurrent)"
      by (rule crawl_run_permits)
    also have "\<dots> = max_concurrent"
      by (simp only: holding_start) (simp add: crawl_start_def)
    finally show ?thesis .
  qed
  have 1: "in_flight s \<le> max_concurrent"
    using inv in_flight_holding [of s] by simp
  have 2: "in_flight s < max_concurrent \<and> in_flight s' \<le> max_concurrent"
    if "process_url s (Acquire i) = Some s'" for i s'
  proof -
    from that have "0 < permits s" by (simp split: if_splits)
    then have "in_flight s < max_concurrent" using inv in_flight_holding [of s] by simp
    moreover have "permits s' + holding s' = max_concurrent"
      using process_url_permits [OF that] inv by simp
    then have "in_flight s' \<le> max_concurrent" using in_flight_holding [of s'] by simp
    ultimately show ?thesis by simp
  qed
  have 3: "permits s' = permits s + 1"
    if "process_url s (Fetch_Failed i) = Some s' \<or> process_url s (Stored i) = Some s'" for i s'
    using that by (auto split: if_splits)
  have acq: "\<forall>i s'. process_url s (Acquire i) = Some s' \<longrightarrow>
            in_flight s < max_concurrent \<and> in_flight s' \<le> max_concurrent"
    using 2 by (intro allI impI)
  have rel: "\<forall>i s'. process_url s (Fetch_Failed i) = Some s' \<or> process_url s (Stored i) = Some s' \<longrightarrow>
            permits s' = permits s + 1"
    using 3 by (intro allI impI)
  show ?thesis by (rule conjI [OF 1 conjI [OF inv conjI [OF acq rel]]])
qed

theorem crawl_parallel_bounded_witness:
  "(0::nat) < 1 \<and>
   crawl_parallel [''https://x/a'', ''https://x/b''] 1 [] = Some \<lparr>permits = 1, tasks = [Waiting, Waiting]\<rparr> \<and>
   process_url \<lparr>permits = 1, tasks = [Waiting, Waiting]\<rparr> (Acquire 0)
     = Some \<lparr>permits = 0, tasks = [Fetching, Waiting]\<rparr> \<and>
   in_flight \<lparr>permits = 1, tasks = [Waiting, Waiting]\<rparr> < 1 \<and>
   crawl_parallel [''https://x/a'', ''https://x/b''] 1 [Acquire 0]
     = Some \<lparr>permits = 0, tasks = [Fetching, Waiting]\<rparr> \<and>
   in_flight \<lparr>permits = 0, tasks = [Fetching, Waiting]\<rparr> \<le> 1 \<and>
   process_url \<lparr>permits = 0, tasks = [Fetching, Waiting]\<rparr> (Acquire 1) = None \<and>
   process_url \<lparr>permits = 0, tasks = [Fetching, Waiting]\<rparr> (Fetch_Failed 0)
     = Some \<lparr>permits = 1, tasks = [Finished, Waiting]\<rparr> \<and>
   permits \<lparr>permits = 1, tasks = [Finished, Waiting]\<rparr>
     = permits \<lparr>permits = 0, tasks = [Fetching, Waiting]\<rparr> + 1"
proof -
  have p: "(0::nat) < 1" by simp
  have r0: "crawl_parallel [''https://x/a'', ''https://x/b''] 1 []
              = Some \<lparr>permits = 1, tasks = [Waiting, Waiting]\<rparr>"
    by (simp add: crawl_parallel_def crawl_start_def)
  have r1: "crawl_parallel [''https://x/a'', ''https://x/b''] 1 [Acquire 0]
              = Some \<lparr>permits = 0, tasks = [Fetching, Waiting]\<rparr>"
    by (simp add: crawl_parallel_def crawl_start_def at_task_def)
  have a0: "process_url \<lparr>permits = 1, tasks = [Waiting, Waiting]\<rparr> (Acquire 0)
              = Some \<lparr>permits = 0, tasks = [Fetching, Waiting]\<rparr>"
    by (simp add: at_task_def)
  have a1: "process_url \<lparr>permits = 0, tasks = [Fetching, Waiting]\<rparr> (Acquire 1) = None"
    by (simp add: at_task_def)
  have f0: "process_url \<lparr>permits = 0, tasks = [Fetching, Waiting]\<rparr> (Fetch_Failed 0)
              = Some \<lparr>permits = 1, tasks = [Finished, Waiting]\<rparr>"
    by (simp add: at_task_def)
  have b0: "in_flight \<lparr>permits = 1, tasks = [Waiting, Waiting]\<rparr> < 1"
    using crawl_parallel_bounded [OF p r0] a0 by blast
  have b1: "in_flight \<lparr>permits = 0, tasks = [Fetching, Waiting]\<rparr> \<le> 1"
    using crawl_parallel_bounded [OF p r1] by blast
  have b2: "permits \<lparr>permits = 1, tasks = [Finished, Waiting]\<rparr>
              = permits \<lparr>permits = 0, tasks = [Fetching, Waiting]\<rparr> + 1"
    using crawl_parallel_bounded [OF p r1] f0 by blast
  show ?thesis
    by (intro conjI p r0 r1 a0 a1 f0 b0 b1 b2)
qed

end
